theory Spec2Isabelle
  imports Main "HOL-Library.Multiset" "HOL-Library.AList"
begin

section \<open>Python values, exceptions and list indexing\<close>

text \<open>
  The exceptions the notebooks can raise. A function that may raise returns
  \<open>error + 'a\<close>, with \<open>Inl\<close> for the exception.
\<close>

datatype error = IndexError | TypeError | NotImplementedError | AssertionError

text \<open>
  The elements of the arrays of \<^verbatim>\<open>2_Getting_Started.ipynb\<close>. A Python \<^verbatim>\<open>int\<close> is an
  object: it has a value (an unbounded integer) and an identity (what \<^verbatim>\<open>id()\<close> returns);
  comparisons read the value only, and a list stores references, so an assignment
  \<^verbatim>\<open>A[k] = L[i]\<close> moves the object with its identity. \<open>PyInf\<close> is \<^verbatim>\<open>float('inf')\<close>, the
  sentinel of \<^verbatim>\<open>merge\<close>.
\<close>

datatype obj = is_int: PyInt (ival: int) (ident: nat) | PyInf

text \<open>\<^verbatim>\<open>x <= y\<close> and \<^verbatim>\<open>x > y\<close> on these values: every integer is below infinity.\<close>

fun obj_le :: "obj \<Rightarrow> obj \<Rightarrow> bool" where
  "obj_le (PyInt a _) (PyInt b _) = (a \<le> b)"
| "obj_le (PyInt _ _) PyInf = True"
| "obj_le PyInf (PyInt _ _) = False"
| "obj_le PyInf PyInf = True"

fun obj_gt :: "obj \<Rightarrow> obj \<Rightarrow> bool" where
  "obj_gt (PyInt a _) (PyInt b _) = (a > b)"
| "obj_gt (PyInt _ _) PyInf = False"
| "obj_gt PyInf (PyInt _ _) = True"
| "obj_gt PyInf PyInf = False"

text \<open>
  \<^verbatim>\<open>xs[i]\<close> and \<^verbatim>\<open>xs[i] = v\<close>: a negative index counts from the end, and an index out of
  range raises \<^verbatim>\<open>IndexError\<close>.
\<close>

definition getitem :: "'a list \<Rightarrow> int \<Rightarrow> error + 'a" where
  "getitem xs i =
     (let n = int (length xs); j = (if i < 0 then i + n else i)
      in if 0 \<le> j \<and> j < n then Inr (xs ! nat j) else Inl IndexError)"

definition setitem :: "'a list \<Rightarrow> int \<Rightarrow> 'a \<Rightarrow> error + 'a list" where
  "setitem xs i v =
     (let n = int (length xs); j = (if i < 0 then i + n else i)
      in if 0 \<le> j \<and> j < n then Inr (xs[nat j := v]) else Inl IndexError)"

text \<open>\<^verbatim>\<open>range(a, b)\<close>: the integers from \<open>a\<close> up to \<open>b - 1\<close>.\<close>

definition py_range :: "int \<Rightarrow> int \<Rightarrow> int list" where
  "py_range a b = [a..b - 1]"

text \<open>
  \<^verbatim>\<open>for k in ks: body\<close> over a state \<open>s\<close>: the body runs once for each index, in order,
  and the first exception ends the loop.
\<close>

fun for_loop :: "('s \<Rightarrow> int \<Rightarrow> error + 's) \<Rightarrow> 's \<Rightarrow> int list \<Rightarrow> error + 's" where
  "for_loop body s [] = Inr s"
| "for_loop body s (k # ks) =
     (case body s k of Inl e \<Rightarrow> Inl e | Inr s' \<Rightarrow> for_loop body s' ks)"

section \<open>Insertion sort\<close>

text \<open>
  The inner loop of \<^verbatim>\<open>insertion_sort\<close>:
  \<^verbatim>\<open>while i >= 0 and A[i] > key: A[i + 1] = A[i]; i -= 1\<close>.
  It returns the array and the final \<open>i\<close>.
\<close>

function while_shift :: "obj list \<Rightarrow> int \<Rightarrow> obj \<Rightarrow> error + (obj list \<times> int)" where
  "while_shift A i key =
     (if i \<ge> 0 then
        (case getitem A i of
           Inl e \<Rightarrow> Inl e
         | Inr a \<Rightarrow>
             if obj_gt a key then
               (case setitem A (i + 1) a of
                  Inl e \<Rightarrow> Inl e
                | Inr A' \<Rightarrow> while_shift A' (i - 1) key)
             else Inr (A, i))
      else Inr (A, i))"
  by pat_completeness auto
termination
  by (relation "measure (\<lambda>(A, i, key). nat (i + 1))") auto

declare while_shift.simps [simp del]

text \<open>The body of the outer loop, for one \<open>j\<close>.\<close>

definition insertion_body :: "obj list \<Rightarrow> int \<Rightarrow> error + obj list" where
  "insertion_body A j =
     (case getitem A j of
        Inl e \<Rightarrow> Inl e
      | Inr key \<Rightarrow>
          (case while_shift A (j - 1) key of
             Inl e \<Rightarrow> Inl e
           | Inr (A1, i) \<Rightarrow> setitem A1 (i + 1) key))"

definition insertion_sort :: "obj list \<Rightarrow> error + obj list" where
  "insertion_sort A = for_loop insertion_body A (py_range 1 (int (length A)))"

section \<open>Merge and merge sort\<close>

text \<open>The two copying loops of \<^verbatim>\<open>merge\<close>: \<^verbatim>\<open>L[j] = A[p + j]\<close> and \<^verbatim>\<open>R[j] = A[q + j + 1]\<close>.\<close>

definition copy_left :: "obj list \<Rightarrow> int \<Rightarrow> obj list \<Rightarrow> int \<Rightarrow> error + obj list" where
  "copy_left A p L j =
     (case getitem A (p + j) of Inl e \<Rightarrow> Inl e | Inr a \<Rightarrow> setitem L j a)"

definition copy_right :: "obj list \<Rightarrow> int \<Rightarrow> obj list \<Rightarrow> int \<Rightarrow> error + obj list" where
  "copy_right A q R j =
     (case getitem A (q + j + 1) of Inl e \<Rightarrow> Inl e | Inr a \<Rightarrow> setitem R j a)"

text \<open>
  The lists \<open>L\<close> and \<open>R\<close> as they stand before the merging loop: allocated as
  \<^verbatim>\<open>[0] * (n + 1)\<close>, filled from \<open>A\<close>, closed with the sentinel.
\<close>

definition merge_setup :: "obj list \<Rightarrow> int \<Rightarrow> int \<Rightarrow> int \<Rightarrow> error + (obj list \<times> obj list)" where
  "merge_setup A p q r =
     (let n1 = q - p + 1;
          n2 = r - q;
          L = replicate (nat (n1 + 1)) (PyInt 0 0);
          R = replicate (nat (n2 + 1)) (PyInt 0 0)
      in case for_loop (copy_left A p) L (py_range 0 n1) of
           Inl e \<Rightarrow> Inl e
         | Inr L1 \<Rightarrow>
        (case for_loop (copy_right A q) R (py_range 0 n2) of
           Inl e \<Rightarrow> Inl e
         | Inr R1 \<Rightarrow>
        (case setitem L1 n1 PyInf of
           Inl e \<Rightarrow> Inl e
         | Inr L2 \<Rightarrow>
        (case setitem R1 n2 PyInf of
           Inl e \<Rightarrow> Inl e
         | Inr R2 \<Rightarrow> Inr (L2, R2)))))"

text \<open>
  One iteration of the merging loop, on the state \<open>(A, i, j)\<close>:
  \<^verbatim>\<open>if L[i] <= R[j]: A[k] = L[i]; i += 1  else: A[k] = R[j]; j += 1\<close>.
\<close>

definition merge_step ::
  "obj list \<Rightarrow> obj list \<Rightarrow> obj list \<times> int \<times> int \<Rightarrow> int \<Rightarrow> error + (obj list \<times> int \<times> int)" where
  "merge_step L R s k =
     (case s of (A, i, j) \<Rightarrow>
        (case getitem L i of
           Inl e \<Rightarrow> Inl e
         | Inr l \<Rightarrow>
        (case getitem R j of
           Inl e \<Rightarrow> Inl e
         | Inr r \<Rightarrow>
             if obj_le l r then
               (case setitem A k l of Inl e \<Rightarrow> Inl e | Inr A' \<Rightarrow> Inr (A', i + 1, j))
             else
               (case setitem A k r of Inl e \<Rightarrow> Inl e | Inr A' \<Rightarrow> Inr (A', i, j + 1)))))"

definition merge :: "obj list \<Rightarrow> int \<Rightarrow> int \<Rightarrow> int \<Rightarrow> error + obj list" where
  "merge A p q r =
     (case merge_setup A p q r of
        Inl e \<Rightarrow> Inl e
      | Inr (L, R) \<Rightarrow>
          (case for_loop (merge_step L R) (A, 0, 0) (py_range p (r + 1)) of
             Inl e \<Rightarrow> Inl e
           | Inr (A', i, j) \<Rightarrow> Inr A'))"

text \<open>
  \<^verbatim>\<open>merge_sort\<close> returns the array after the call and the value of the call: \<open>Some\<close> of
  the array where the source reaches \<^verbatim>\<open>return A\<close>, \<open>None\<close> where it falls off the end
  of the function.
\<close>

function merge_sort :: "obj list \<Rightarrow> int \<Rightarrow> int \<Rightarrow> error + (obj list \<times> obj list option)" where
  "merge_sort A p r =
     (if p < r then
        (let q = (p + r) div 2
         in case merge_sort A p q of
              Inl e \<Rightarrow> Inl e
            | Inr (A1, _) \<Rightarrow>
           (case merge_sort A1 (q + 1) r of
              Inl e \<Rightarrow> Inl e
            | Inr (A2, _) \<Rightarrow>
           (case merge A2 p q r of
              Inl e \<Rightarrow> Inl e
            | Inr A3 \<Rightarrow> Inr (A3, Some A3))))
      else Inr (A, None))"
  by pat_completeness auto
termination
  by (relation "measure (\<lambda>(A, p, r). nat (r - p))") auto

declare merge_sort.simps [simp del]

section \<open>The classes of the training-loop notebook\<close>

text \<open>
  The values that the constructors of \<^verbatim>\<open>3.2_Object_Oriented_Disign_For_Implementation.ipynb\<close>
  receive and store. \<open>VFloat m e\<close> is the float \<open>m * 2^e\<close>; \<open>VObj\<close> is an instance, given by
  its attributes; \<open>VRef\<close> is a reference to an object that is named rather than copied (the
  instance under construction, a class).
\<close>

datatype pyval =
    VNone
  | VBool bool
  | VInt int
  | VFloat int int
  | VStr string
  | VList "pyval list"
  | VTuple "pyval list"
  | VDict "(string \<times> pyval) list"
  | VObj "(string \<times> pyval) list"
  | VRef string

text \<open>
  An instance is its \<^verbatim>\<open>__dict__\<close>: the attributes set on it, in the order they were first
  set. \<^verbatim>\<open>setattr(self, k, v)\<close> rebinds \<open>k\<close> or adds it; \<open>map_of self k\<close> reads it.
\<close>

type_synonym attrs = "(string \<times> pyval) list"

definition setattr :: "attrs \<Rightarrow> string \<Rightarrow> pyval \<Rightarrow> attrs" where
  "setattr self k v = AList.update k v self"

text \<open>\<^verbatim>\<open>s.startswith(pre)\<close>.\<close>

definition startswith :: "string \<Rightarrow> string \<Rightarrow> bool" where
  "startswith s pre = (take (length pre) s = pre)"

text \<open>
  \<^verbatim>\<open>HyperParameters.save_hyperparameters(self, ignore)\<close>. \<open>local_vars\<close> is the dictionary of
  the local variables of the calling frame, as \<^verbatim>\<open>inspect.getargvalues\<close> returns it: in an
  \<^verbatim>\<open>__init__\<close> that calls the method first, the arguments with the values passed. The
  method binds \<^verbatim>\<open>self.hparams\<close> to the dictionary of the names kept, then sets each of them
  as an attribute.
\<close>

definition save_hyperparameters :: "attrs \<Rightarrow> (string \<times> pyval) list \<Rightarrow> string list \<Rightarrow> attrs" where
  "save_hyperparameters self local_vars ignore =
     (let hparams = filter (\<lambda>(k, v). k \<notin> set (ignore @ [''self'']) \<and> \<not> startswith k ''_'')
                      local_vars;
          self1 = setattr self ''hparams'' (VDict hparams)
      in fold (\<lambda>(k, v) s. setattr s k v) hparams self1)"


text \<open>\<^verbatim>\<open>ProgressBoard.__init__\<close>, on the bound arguments in the order of the signature, and
  the defaults of the signature.\<close>

definition ProgressBoard_init :: "(string \<times> pyval) list \<Rightarrow> attrs" where
  "ProgressBoard_init args = save_hyperparameters [] ((''self'', VRef ''self'') # args) []"

definition ProgressBoard_defaults :: "(string \<times> pyval) list" where
  "ProgressBoard_defaults =
     [(''xlabel'', VNone), (''ylabel'', VNone), (''xlim'', VNone), (''ylim'', VNone),
      (''xscale'', VStr ''linear''), (''yscale'', VStr ''linear''),
      (''ls'', VList [VStr ''-'', VStr ''--'', VStr ''-.'', VStr '':'']),
      (''colors'', VList [VStr ''C0'', VStr ''C1'', VStr ''C2'', VStr ''C3'']),
      (''fig'', VNone), (''axes'', VNone),
      (''figsize'', VTuple [VFloat 7 (- 1), VFloat 5 (- 1)]), (''display'', VBool True)]"

text \<open>
  \<^verbatim>\<open>super.__init__()\<close> as \<^verbatim>\<open>Module.__init__\<close> writes it: \<^verbatim>\<open>super\<close> is not called, so this is the
  \<^verbatim>\<open>__init__\<close> slot of the builtin type \<^verbatim>\<open>super\<close>, called on the arguments given. Python
  raises \<^verbatim>\<open>TypeError\<close>: with no argument the descriptor "needs an argument", and no value
  of \<open>pyval\<close> is a \<^verbatim>\<open>super\<close> object, which the first argument would have to be.
\<close>

definition super_slot_init :: "pyval list \<Rightarrow> error + unit" where
  "super_slot_init args = Inl TypeError"

text \<open>
  \<^verbatim>\<open>Module.__init__(self, plot_train_per_epoch, plot_valid_per_epoch)\<close>. The body names
  \<^verbatim>\<open>super\<close>, so the frame has the cell \<^verbatim>\<open>__class__\<close> among its local variables.
\<close>

definition Module_init :: "pyval \<Rightarrow> pyval \<Rightarrow> error + attrs" where
  "Module_init plot_train_per_epoch plot_valid_per_epoch =
     (case super_slot_init [] of
        Inl e \<Rightarrow> Inl e
      | Inr _ \<Rightarrow>
          (let self1 = save_hyperparameters []
                 [(''self'', VRef ''self''),
                  (''plot_train_per_epoch'', plot_train_per_epoch),
                  (''plot_valid_per_epoch'', plot_valid_per_epoch),
                  (''__class__'', VRef ''Module'')] []
           in Inr (setattr self1 ''board'' (VObj (ProgressBoard_init ProgressBoard_defaults)))))"

text \<open>The abstract methods of \<^verbatim>\<open>Module\<close>: \<^verbatim>\<open>raise NotImplementedError\<close>.\<close>

definition Module_loss :: "attrs \<Rightarrow> pyval \<Rightarrow> pyval \<Rightarrow> error + pyval" where
  "Module_loss self y_hat y = Inl NotImplementedError"

definition Module_configure_optimizers :: "attrs \<Rightarrow> error + pyval" where
  "Module_configure_optimizers self = Inl NotImplementedError"

text \<open>\<^verbatim>\<open>DataModule\<close>: the constructor and the abstract \<^verbatim>\<open>get_dataloader\<close>.\<close>

definition DataModule_init :: "pyval \<Rightarrow> pyval \<Rightarrow> attrs" where
  "DataModule_init root num_workers =
     save_hyperparameters []
       [(''self'', VRef ''self''), (''root'', root), (''num_workers'', num_workers)] []"

definition DataModule_get_dataloader :: "attrs \<Rightarrow> pyval \<Rightarrow> error + pyval" where
  "DataModule_get_dataloader self train = Inl NotImplementedError"

text \<open>
  \<^verbatim>\<open>Trainer\<close>: the constructor saves its arguments and then asserts \<^verbatim>\<open>num_gpus == 0\<close>
  (\<open>is_zero\<close>: the values that compare equal to \<open>0\<close>); \<^verbatim>\<open>fit_epoch\<close> is abstract.
\<close>

fun is_zero :: "pyval \<Rightarrow> bool" where
  "is_zero (VInt n) = (n = 0)"
| "is_zero (VBool b) = (\<not> b)"
| "is_zero (VFloat m e) = (m = 0)"
| "is_zero _ = False"

definition Trainer_init :: "pyval \<Rightarrow> pyval \<Rightarrow> pyval \<Rightarrow> error + attrs" where
  "Trainer_init max_epochs num_gpus gradient_clip_val =
     (let self = save_hyperparameters []
            [(''self'', VRef ''self''), (''max_epochs'', max_epochs), (''num_gpus'', num_gpus),
             (''gradient_clip_val'', gradient_clip_val)] []
      in if is_zero num_gpus then Inr self else Inl AssertionError)"

definition Trainer_fit_epoch :: "attrs \<Rightarrow> error + pyval" where
  "Trainer_fit_epoch self = Inl NotImplementedError"

section \<open>Notions the properties are stated with\<close>

text \<open>\<open>A[p..r]\<close>, the subarray of the textbook, both ends included.\<close>

definition subarray :: "'a list \<Rightarrow> int \<Rightarrow> int \<Rightarrow> 'a list" where
  "subarray A p r = take (nat (r - p + 1)) (drop (nat p) A)"

text \<open>
  The merge of two lists as a list function, taking from the left list when the heads
  compare equal. The merging loop of \<^verbatim>\<open>merge\<close> is shown to compute it.
\<close>

fun merge_lists :: "obj list \<Rightarrow> obj list \<Rightarrow> obj list" where
  "merge_lists [] [] = []"
| "merge_lists [] (y # ys) = y # merge_lists [] ys"
| "merge_lists (x # xs) [] = x # merge_lists xs []"
| "merge_lists (x # xs) (y # ys) =
     (if obj_le x y then x # merge_lists xs (y # ys) else y # merge_lists (x # xs) ys)"

section \<open>Indexing, ranges and loops\<close>

lemma getitem_nat: "n < length xs \<Longrightarrow> getitem xs (int n) = Inr (xs ! n)"
  by (simp add: getitem_def)

lemma setitem_nat: "n < length xs \<Longrightarrow> setitem xs (int n) v = Inr (xs[n := v])"
  by (simp add: setitem_def)

lemma getitem_append: "getitem (xs @ a # ys) (int (length xs)) = Inr a"
  by (simp add: getitem_def)

lemma setitem_append: "setitem (xs @ a # ys) (int (length xs)) v = Inr (xs @ v # ys)"
  by (simp add: setitem_def)

lemma py_range_empty: "b \<le> a \<Longrightarrow> py_range a b = []"
  by (simp add: py_range_def)

lemma py_range_Cons: "a < b \<Longrightarrow> py_range a b = a # py_range (a + 1) b"
  by (simp add: py_range_def upto_rec1)

lemma py_range_snoc: "a < b \<Longrightarrow> py_range a b = py_range a (b - 1) @ [b - 1]"
  by (simp add: py_range_def upto_rec2)

lemma length_py_range: "length (py_range a b) = nat (b - a)"
  by (simp add: py_range_def)

lemma for_loop_append:
  "for_loop body s (xs @ ys) =
     (case for_loop body s xs of Inl e \<Rightarrow> Inl e | Inr s' \<Rightarrow> for_loop body s' ys)"
  by (induction xs arbitrary: s) (auto split: sum.splits)

lemma obj_gt_iff: "obj_gt a b \<longleftrightarrow> \<not> obj_le a b"
  by (cases a; cases b) auto

lemma obj_le_refl: "obj_le a a"
  by (cases a) auto

lemma obj_le_trans: "obj_le a b \<Longrightarrow> obj_le b c \<Longrightarrow> obj_le a c"
  by (cases a; cases b; cases c) auto

lemma obj_le_total: "obj_le a b \<or> obj_le b a"
  by (cases a; cases b) auto

lemma obj_gt_le: "obj_gt a b \<Longrightarrow> obj_le b a"
  by (cases a; cases b) auto

section \<open>Correctness of insertion sort\<close>

lemma while_shift_split:
  "\<exists>lo hi h'. xs = lo @ hi \<and> (\<forall>a\<in>set hi. obj_gt a key) \<and>
       (lo = [] \<or> \<not> obj_gt (last lo) key) \<and>
       while_shift (xs @ h # rest) (int (length xs) - 1) key
         = Inr (lo @ h' # hi @ rest, int (length lo) - 1)"
proof (induction xs arbitrary: h rest rule: rev_induct)
  case Nil
  show ?case by (subst while_shift.simps) simp
next
  case (snoc a ys)
  have get: "getitem ((ys @ [a]) @ h # rest) (int (length ys)) = Inr a"
    using getitem_append [of ys a "h # rest"] by simp
  show ?case
  proof (cases "obj_gt a key")
    case True
    have set: "setitem ((ys @ [a]) @ h # rest) (int (length ys) + 1) a = Inr (ys @ a # a # rest)"
      using setitem_append [of "ys @ [a]" h rest a] by (simp add: add.commute)
    from snoc.IH [of a "a # rest"] obtain lo hi h' where
      IH: "ys = lo @ hi" "\<forall>a\<in>set hi. obj_gt a key" "lo = [] \<or> \<not> obj_gt (last lo) key"
        "while_shift (ys @ a # a # rest) (int (length ys) - 1) key
           = Inr (lo @ h' # hi @ a # rest, int (length lo) - 1)"
      by blast
    have "while_shift ((ys @ [a]) @ h # rest) (int (length (ys @ [a])) - 1) key
            = Inr (lo @ h' # (hi @ [a]) @ rest, int (length lo) - 1)"
      using True get set IH(4) by (subst while_shift.simps) simp
    moreover have "ys @ [a] = lo @ (hi @ [a])" using IH(1) by simp
    moreover have "\<forall>b\<in>set (hi @ [a]). obj_gt b key" using IH(2) True by simp
    ultimately show ?thesis using IH(3) by blast
  next
    case False
    have "while_shift ((ys @ [a]) @ h # rest) (int (length (ys @ [a])) - 1) key
            = Inr ((ys @ [a]) @ h # [] @ rest, int (length (ys @ [a])) - 1)"
      using False get by (subst while_shift.simps) simp
    moreover have "ys @ [a] = (ys @ [a]) @ []" by simp
    moreover have "\<not> obj_gt (last (ys @ [a])) key" using False by simp
    ultimately show ?thesis by (metis empty_iff list.set(1))
  qed
qed

lemma sorted_wrt_le_last:
  "sorted_wrt obj_le lo \<Longrightarrow> lo \<noteq> [] \<Longrightarrow> obj_le (last lo) k \<Longrightarrow> \<forall>a\<in>set lo. obj_le a k"
proof (induction lo)
  case Nil
  then show ?case by simp
next
  case (Cons a lo)
  show ?case
  proof (cases "lo = []")
    case True
    then show ?thesis using Cons.prems by simp
  next
    case False
    have l: "obj_le (last lo) k" using Cons.prems(3) False by simp
    have "sorted_wrt obj_le lo" using Cons.prems(1) by simp
    from Cons.IH [OF this False l] have rest: "\<forall>b\<in>set lo. obj_le b k" .
    have "last lo \<in> set lo" using False by simp
    then have "obj_le a (last lo)" using Cons.prems(1) by simp
    moreover note l
    ultimately have "obj_le a k" by (rule obj_le_trans)
    then show ?thesis using rest by simp
  qed
qed

lemma insertion_body_spec:
  assumes "sorted_wrt obj_le xs"
  shows "\<exists>ys. insertion_body (xs @ key # rest) (int (length xs)) = Inr (ys @ rest) \<and>
           sorted_wrt obj_le ys \<and> mset ys = add_mset key (mset xs) \<and>
           length ys = Suc (length xs)"
proof -
  from while_shift_split [of xs key key rest] obtain lo hi h' where
    s: "xs = lo @ hi" "\<forall>a\<in>set hi. obj_gt a key" "lo = [] \<or> \<not> obj_gt (last lo) key"
      "while_shift (xs @ key # rest) (int (length xs) - 1) key
         = Inr (lo @ h' # hi @ rest, int (length lo) - 1)"
    by blast
  have "setitem (lo @ h' # hi @ rest) (int (length lo) - 1 + 1) key = Inr (lo @ key # hi @ rest)"
    using setitem_append [of lo h' "hi @ rest" key] by simp
  then have run: "insertion_body (xs @ key # rest) (int (length xs)) = Inr ((lo @ key # hi) @ rest)"
    using s(4) getitem_append [of xs key rest] by (simp add: insertion_body_def)
  have lo_le: "\<forall>a\<in>set lo. obj_le a key"
  proof (cases "lo = []")
    case True then show ?thesis by simp
  next
    case False
    then have "obj_le (last lo) key" using s(3) by (simp add: obj_gt_iff)
    moreover have "sorted_wrt obj_le lo" using assms s(1) by (simp add: sorted_wrt_append)
    ultimately show ?thesis using False sorted_wrt_le_last by blast
  qed
  have hi_ge: "\<forall>a\<in>set hi. obj_le key a"
    using s(2) by (simp add: obj_gt_le)
  have "sorted_wrt obj_le (lo @ key # hi)"
    using assms s(1) lo_le hi_ge by (auto simp: sorted_wrt_append)
  moreover have "mset (lo @ key # hi) = add_mset key (mset xs)" using s(1) by simp
  moreover have "length (lo @ key # hi) = Suc (length xs)" using s(1) by simp
  ultimately show ?thesis using run by blast
qed

lemma insertion_loop_spec:
  "sorted_wrt obj_le xs \<Longrightarrow>
   \<exists>B. for_loop insertion_body (xs @ rest)
          (py_range (int (length xs)) (int (length xs) + int (length rest))) = Inr B \<and>
        sorted_wrt obj_le B \<and> mset B = mset (xs @ rest)"
proof (induction rest arbitrary: xs)
  case Nil
  then show ?case by (simp add: py_range_empty)
next
  case (Cons key rest)
  from insertion_body_spec [OF Cons.prems, of key rest] obtain ys where
    ys: "insertion_body (xs @ key # rest) (int (length xs)) = Inr (ys @ rest)"
      "sorted_wrt obj_le ys" "mset ys = add_mset key (mset xs)" "length ys = Suc (length xs)"
    by blast
  from Cons.IH [OF ys(2)] obtain B where
    B: "for_loop insertion_body (ys @ rest)
          (py_range (int (length ys)) (int (length ys) + int (length rest))) = Inr B"
       "sorted_wrt obj_le B" "mset B = mset (ys @ rest)"
    by blast
  have e1: "int (length xs) + 1 = int (length ys)" using ys(4) by simp
  have e2: "int (length xs) + int (length (key # rest)) = int (length ys) + int (length rest)"
    using ys(4) by simp
  have "int (length xs) < int (length xs) + int (length (key # rest))" by simp
  from py_range_Cons [OF this]
  have "py_range (int (length xs)) (int (length xs) + int (length (key # rest)))
          = int (length xs) # py_range (int (length ys)) (int (length ys) + int (length rest))"
    unfolding e1 e2 .
  then have "for_loop insertion_body (xs @ key # rest)
          (py_range (int (length xs)) (int (length xs) + int (length (key # rest)))) = Inr B"
    using ys(1) B(1) by simp
  moreover have "mset B = mset (xs @ key # rest)" using B(3) ys(3) by simp
  ultimately show ?case using B(2) by blast
qed

lemma insertion_sort_general:
  "\<exists>B. insertion_sort A = Inr B \<and> mset B = mset A \<and> sorted_wrt obj_le B"
proof (cases A)
  case Nil
  then show ?thesis by (simp add: insertion_sort_def py_range_empty)
next
  case (Cons a rest)
  have "sorted_wrt obj_le [a]" by simp
  from insertion_loop_spec [OF this, of rest] obtain B where
    B: "for_loop insertion_body ([a] @ rest)
          (py_range (int (length [a])) (int (length [a]) + int (length rest))) = Inr B"
       "sorted_wrt obj_le B" "mset B = mset ([a] @ rest)"
    by blast
  have "int (length [a]) + int (length rest) = int (length A)" using Cons by simp
  then have "insertion_sort A = Inr B"
    using B(1) Cons by (simp add: insertion_sort_def)
  then show ?thesis using B(2,3) Cons by simp
qed

lemma obj_le_ints: "is_int a \<Longrightarrow> is_int b \<Longrightarrow> obj_le a b \<longleftrightarrow> ival a \<le> ival b"
  by (cases a; cases b) auto

lemma sorted_ints:
  assumes "list_all is_int B"
  shows "sorted_wrt obj_le B \<longleftrightarrow> sorted (map ival B)"
proof -
  have ints: "\<And>x. x \<in> set B \<Longrightarrow> is_int x" using assms by (simp add: list_all_iff)
  have "sorted_wrt obj_le B \<longleftrightarrow> sorted_wrt (\<lambda>x y. ival x \<le> ival y) B"
  proof
    assume "sorted_wrt obj_le B"
    then show "sorted_wrt (\<lambda>x y. ival x \<le> ival y) B"
      by (rule sorted_wrt_mono_rel [rotated]) (simp add: ints obj_le_ints)
  next
    assume "sorted_wrt (\<lambda>x y. ival x \<le> ival y) B"
    then show "sorted_wrt obj_le B"
      by (rule sorted_wrt_mono_rel [rotated]) (simp add: ints obj_le_ints)
  qed
  then show ?thesis by (simp add: sorted_wrt_map)
qed

lemma list_all_mset_eq: "mset B = mset A \<Longrightarrow> list_all P A \<Longrightarrow> list_all P B"
  using mset_eq_setD [of B A] by (simp add: list_all_iff)

text \<open>
  C2. For every list \<open>A\<close> of integers, \<^verbatim>\<open>insertion_sort(A)\<close> returns (it raises nothing) a
  list that is a permutation of \<open>A\<close>, the same objects in another order, and whose values
  are in non-decreasing order.
\<close>

theorem insertion_sort_sorted_permutation:
  assumes "list_all is_int A"
  shows "\<exists>B. insertion_sort A = Inr B \<and> mset B = mset A \<and> sorted (map ival B)"
proof -
  from insertion_sort_general [of A] obtain B where
    B: "insertion_sort A = Inr B" "mset B = mset A" "sorted_wrt obj_le B"
    by blast
  have "list_all is_int B" using B(2) assms by (rule list_all_mset_eq)
  then have "sorted (map ival B)" using B(3) by (simp add: sorted_ints)
  then show ?thesis using B(1,2) by blast
qed

theorem insertion_sort_sorted_permutation_witness:
  "list_all is_int [PyInt 5 0, PyInt 2 1, PyInt 4 2, PyInt 6 3, PyInt 1 4, PyInt 3 5] \<and>
   (\<exists>B. insertion_sort [PyInt 5 0, PyInt 2 1, PyInt 4 2, PyInt 6 3, PyInt 1 4, PyInt 3 5] = Inr B \<and>
        mset B = mset [PyInt 5 0, PyInt 2 1, PyInt 4 2, PyInt 6 3, PyInt 1 4, PyInt 3 5] \<and>
        sorted (map ival B))"
proof -
  have h: "list_all is_int [PyInt 5 0, PyInt 2 1, PyInt 4 2, PyInt 6 3, PyInt 1 4, PyInt 3 5]"
    by simp
  from insertion_sort_sorted_permutation [OF h] h show ?thesis by blast
qed

section \<open>Merge sort on the notebook's example, and its return value\<close>

text \<open>
  C4. On the list \<^verbatim>\<open>[10,9,8,7,6,5,4,3,2,1]\<close> the call \<^verbatim>\<open>merge_sort(A, 0, len(A)-1)\<close> returns
  \<^verbatim>\<open>[1,2,3,4,5,6,7,8,9,10]\<close>, and that is the array after the call. The identities (the
  second field) show where each object came from.
\<close>

theorem merge_sort_example:
  "merge_sort [PyInt 10 0, PyInt 9 1, PyInt 8 2, PyInt 7 3, PyInt 6 4,
               PyInt 5 5, PyInt 4 6, PyInt 3 7, PyInt 2 8, PyInt 1 9] 0 9
   = Inr ([PyInt 1 9, PyInt 2 8, PyInt 3 7, PyInt 4 6, PyInt 5 5,
           PyInt 6 4, PyInt 7 3, PyInt 8 2, PyInt 9 1, PyInt 10 0],
          Some [PyInt 1 9, PyInt 2 8, PyInt 3 7, PyInt 4 6, PyInt 5 5,
                PyInt 6 4, PyInt 7 3, PyInt 8 2, PyInt 9 1, PyInt 10 0])"
  by code_simp

text \<open>
  C9. For every list \<open>A\<close> and indices with \<open>p \<ge> r\<close>, \<^verbatim>\<open>merge_sort\<close> returns \<^verbatim>\<open>None\<close> and leaves
  the array as it was; in particular \<^verbatim>\<open>merge_sort(A, 0, len(A)-1)\<close> does on a list with at
  most one element. The array is the value of the call only when \<open>p < r\<close>.
\<close>

theorem merge_sort_returns_None:
  "(r \<le> p \<longrightarrow> merge_sort A p r = Inr (A, None)) \<and>
   (length A \<le> 1 \<longrightarrow> merge_sort A 0 (int (length A) - 1) = Inr (A, None)) \<and>
   (\<forall>A' v. merge_sort A p r = Inr (A', Some v) \<longrightarrow> p < r)"
proof (intro conjI impI allI)
  assume "r \<le> p"
  then show "merge_sort A p r = Inr (A, None)"
    by (subst merge_sort.simps) simp
next
  assume "length A \<le> 1"
  then show "merge_sort A 0 (int (length A) - 1) = Inr (A, None)"
    by (subst merge_sort.simps) simp
next
  fix A' v
  assume ret: "merge_sort A p r = Inr (A', Some v)"
  show "p < r"
  proof (rule ccontr)
    assume "\<not> p < r"
    then have "merge_sort A p r = Inr (A, None)"
      by (subst merge_sort.simps) simp
    then show False using ret by simp
  qed
qed

theorem merge_sort_returns_None_witness:
  "(0::int) \<le> 0 \<and> merge_sort [PyInt 7 0] 0 0 = Inr ([PyInt 7 0], None) \<and>
   length ([] :: obj list) \<le> 1 \<and> merge_sort [] 0 (int (length ([] :: obj list)) - 1) = Inr ([], None) \<and>
   merge_sort [PyInt 2 0, PyInt 1 1] 0 1 = Inr ([PyInt 1 1, PyInt 2 0], Some [PyInt 1 1, PyInt 2 0]) \<and>
   (0::int) < 1"
proof -
  have run: "merge_sort [PyInt 2 0, PyInt 1 1] 0 1
               = Inr ([PyInt 1 1, PyInt 2 0], Some [PyInt 1 1, PyInt 2 0])"
    by code_simp
  have "(0::int) < 1"
    using merge_sort_returns_None [of 1 0 "[PyInt 2 0, PyInt 1 1]"] run by blast
  moreover have "merge_sort [PyInt 7 0] 0 0 = Inr ([PyInt 7 0], None)"
    using merge_sort_returns_None [of 0 0 "[PyInt 7 0]"] by simp
  moreover have "merge_sort [] 0 (int (length ([] :: obj list)) - 1) = Inr ([], None)"
    using merge_sort_returns_None [of 0 0 "[]"] by simp
  ultimately show ?thesis using run by simp
qed

section \<open>The merging loop computes the merge of the two runs\<close>

lemma merge_lists_Nil1: "merge_lists [] ys = ys"
  by (induction ys) auto

lemma merge_lists_Nil2: "merge_lists xs [] = xs"
  by (induction xs) auto

lemma set_merge_lists: "set (merge_lists xs ys) = set xs \<union> set ys"
  by (induction xs ys rule: merge_lists.induct) auto

lemma mset_merge_lists: "mset (merge_lists xs ys) = mset xs + mset ys"
  by (induction xs ys rule: merge_lists.induct) auto

lemma length_merge_lists: "length (merge_lists xs ys) = length xs + length ys"
  by (induction xs ys rule: merge_lists.induct) auto

lemma sorted_merge_lists:
  "sorted_wrt obj_le xs \<Longrightarrow> sorted_wrt obj_le ys \<Longrightarrow> sorted_wrt obj_le (merge_lists xs ys)"
proof (induction xs ys rule: merge_lists.induct)
  case (4 x xs y ys)
  show ?case
  proof (cases "obj_le x y")
    case True
    have "\<forall>z\<in>set (y # ys). obj_le x z"
      using True "4.prems"(2) by (auto intro: obj_le_trans)
    moreover have "\<forall>z\<in>set xs. obj_le x z" using "4.prems"(1) by simp
    moreover have "sorted_wrt obj_le (merge_lists xs (y # ys))"
      using "4.IH"(1) [OF True] "4.prems" by simp
    ultimately show ?thesis using True by (simp add: set_merge_lists) blast
  next
    case False
    then have yx: "obj_le y x" using obj_le_total by blast
    have "\<forall>z\<in>set (x # xs). obj_le y z"
      using yx "4.prems"(1) by (auto intro: obj_le_trans)
    moreover have "\<forall>z\<in>set ys. obj_le y z" using "4.prems"(2) by simp
    moreover have "sorted_wrt obj_le (merge_lists (x # xs) ys)"
      using "4.IH"(2) [OF False] "4.prems" by simp
    ultimately show ?thesis using False by (simp add: set_merge_lists) blast
  qed
qed (simp_all add: merge_lists_Nil1 merge_lists_Nil2)

lemma filter_above_empty:
  assumes "sorted_wrt obj_le (x # xs)" "list_all is_int (x # xs)" "is_int y" "\<not> obj_le x y"
  shows "filter (\<lambda>z. ival z = ival y) (x # xs) = []"
proof -
  have "ival z \<noteq> ival y" if "z \<in> set (x # xs)" for z
  proof -
    have zi: "is_int z" using that assms(2) by (auto simp: list_all_iff)
    have xi: "is_int x" using assms(2) by simp
    have "obj_le x z" using that assms(1) by (auto simp: obj_le_refl)
    then have "ival x \<le> ival z" using xi zi by (simp add: obj_le_ints)
    moreover have "ival y < ival x" using assms(4) xi assms(3) by (simp add: obj_le_ints)
    ultimately show ?thesis by simp
  qed
  then show ?thesis by (simp add: filter_empty_conv)
qed

lemma merge_lists_stable:
  "sorted_wrt obj_le xs \<Longrightarrow> sorted_wrt obj_le ys \<Longrightarrow>
   list_all is_int xs \<Longrightarrow> list_all is_int ys \<Longrightarrow>
   filter (\<lambda>z. ival z = v) (merge_lists xs ys)
     = filter (\<lambda>z. ival z = v) xs @ filter (\<lambda>z. ival z = v) ys"
proof (induction xs ys rule: merge_lists.induct)
  case (4 x xs y ys)
  show ?case
  proof (cases "obj_le x y")
    case True
    have "filter (\<lambda>z. ival z = v) (merge_lists xs (y # ys))
            = filter (\<lambda>z. ival z = v) xs @ filter (\<lambda>z. ival z = v) (y # ys)"
      using "4.IH"(1) [OF True] "4.prems" by simp
    then show ?thesis using True by simp
  next
    case False
    have IH: "filter (\<lambda>z. ival z = v) (merge_lists (x # xs) ys)
            = filter (\<lambda>z. ival z = v) (x # xs) @ filter (\<lambda>z. ival z = v) ys"
      using "4.IH"(2) [OF False] "4.prems" by simp
    show ?thesis
    proof (cases "ival y = v")
      case True
      have "is_int y" using "4.prems"(4) by simp
      from filter_above_empty [OF "4.prems"(1) "4.prems"(3) this False]
      have "filter (\<lambda>z. ival z = v) (x # xs) = []" using True by simp
      then show ?thesis using IH False True by simp
    next
      case ne: False
      then show ?thesis using IH False by simp
    qed
  qed
qed (simp_all add: merge_lists_Nil1 merge_lists_Nil2)

lemma merge_lists_sorted_append:
  "sorted_wrt obj_le (xs @ ys) \<Longrightarrow> merge_lists xs ys = xs @ ys"
proof (induction xs)
  case Nil
  then show ?case by (simp add: merge_lists_Nil1)
next
  case (Cons x xs)
  show ?case
  proof (cases ys)
    case Nil
    then show ?thesis by (simp add: merge_lists_Nil2)
  next
    case (Cons y ys')
    have "obj_le x y" using Cons.prems Cons by simp
    moreover have "merge_lists xs ys = xs @ ys" using Cons.IH Cons.prems by simp
    ultimately show ?thesis using Cons by simp
  qed
qed

lemma merge_step_left:
  assumes "getitem R j = Inr y" "obj_le x y"
  shows "merge_step (L0 @ x # L1) R (pre @ m # rest, int (length L0), j) (int (length pre))
           = Inr (pre @ x # rest, int (length L0) + 1, j)"
  using assms by (simp add: merge_step_def getitem_append setitem_append)

lemma merge_step_right:
  assumes "getitem L i = Inr x" "\<not> obj_le x y"
  shows "merge_step L (R0 @ y # R1) (pre @ m # rest, i, int (length R0)) (int (length pre))
           = Inr (pre @ y # rest, i, int (length R0) + 1)"
  using assms by (simp add: merge_step_def getitem_append setitem_append)

lemma py_range_step:
  "py_range (int (length pre)) (int (length pre) + int (length (m # mid)))
     = int (length pre) # py_range (int (length (pre @ [y]))) (int (length (pre @ [y])) + int (length mid))"
proof -
  have e1: "int (length pre) + 1 = int (length (pre @ [y]))" by simp
  have e2: "int (length pre) + int (length (m # mid)) = int (length (pre @ [y])) + int (length mid)"
    by simp
  have "int (length pre) < int (length pre) + int (length (m # mid))" by simp
  from py_range_Cons [OF this] show ?thesis unfolding e1 e2 .
qed

lemma merge_loop_spec:
  "list_all is_int xs \<Longrightarrow> list_all is_int ys \<Longrightarrow> length mid = length xs + length ys \<Longrightarrow>
   for_loop (merge_step (L0 @ xs @ [PyInf]) (R0 @ ys @ [PyInf]))
       (pre @ mid @ post, int (length L0), int (length R0))
       (py_range (int (length pre)) (int (length pre) + int (length mid)))
     = Inr (pre @ merge_lists xs ys @ post,
            int (length L0) + int (length xs), int (length R0) + int (length ys))"
proof (induction xs ys arbitrary: L0 R0 pre mid rule: merge_lists.induct)
  case 1
  then show ?case by (simp add: py_range_empty)
next
  case (2 y ys)
  from "2.prems"(3) obtain m mid' where mid: "mid = m # mid'" "length mid' = length ([]::obj list) + length ys"
    by (cases mid) auto
  have yi: "is_int y" and ysi: "list_all is_int ys" using "2.prems"(2) by simp_all
  have "getitem (L0 @ [] @ [PyInf]) (int (length L0)) = Inr PyInf"
    using getitem_append [of L0 PyInf "[]"] by simp
  moreover have "\<not> obj_le PyInf y" using yi by (cases y) auto
  ultimately have step: "merge_step (L0 @ [] @ [PyInf]) (R0 @ (y # ys) @ [PyInf])
      (pre @ mid @ post, int (length L0), int (length R0)) (int (length pre))
    = Inr ((pre @ [y]) @ mid' @ post, int (length L0), int (length (R0 @ [y])))"
    using merge_step_right [of "L0 @ [] @ [PyInf]" "int (length L0)" PyInf y R0 "ys @ [PyInf]" pre m "mid' @ post"]
    by (simp add: mid)
  have IH: "for_loop (merge_step (L0 @ [] @ [PyInf]) ((R0 @ [y]) @ ys @ [PyInf]))
       ((pre @ [y]) @ mid' @ post, int (length L0), int (length (R0 @ [y])))
       (py_range (int (length (pre @ [y]))) (int (length (pre @ [y])) + int (length mid')))
     = Inr ((pre @ [y]) @ merge_lists [] ys @ post,
            int (length L0) + int (length ([]::obj list)), int (length (R0 @ [y])) + int (length ys))"
    using "2.prems"(1) ysi mid(2) by (rule "2.IH")
  show ?case
    unfolding mid(1) py_range_step [of pre m mid' y]
    using step IH by (simp add: mid)
next
  case (3 x xs)
  from "3.prems"(3) obtain m mid' where mid: "mid = m # mid'" "length mid' = length xs + length ([]::obj list)"
    by (cases mid) auto
  have xi: "is_int x" and xsi: "list_all is_int xs" using "3.prems"(1) by simp_all
  have "getitem (R0 @ [] @ [PyInf]) (int (length R0)) = Inr PyInf"
    using getitem_append [of R0 PyInf "[]"] by simp
  moreover have "obj_le x PyInf" using xi by (cases x) auto
  ultimately have step: "merge_step (L0 @ (x # xs) @ [PyInf]) (R0 @ [] @ [PyInf])
      (pre @ mid @ post, int (length L0), int (length R0)) (int (length pre))
    = Inr ((pre @ [x]) @ mid' @ post, int (length (L0 @ [x])), int (length R0))"
    using merge_step_left [of "R0 @ [] @ [PyInf]" "int (length R0)" PyInf x L0 "xs @ [PyInf]" pre m "mid' @ post"]
    by (simp add: mid)
  have IH: "for_loop (merge_step ((L0 @ [x]) @ xs @ [PyInf]) (R0 @ [] @ [PyInf]))
       ((pre @ [x]) @ mid' @ post, int (length (L0 @ [x])), int (length R0))
       (py_range (int (length (pre @ [x]))) (int (length (pre @ [x])) + int (length mid')))
     = Inr ((pre @ [x]) @ merge_lists xs [] @ post,
            int (length (L0 @ [x])) + int (length xs), int (length R0) + int (length ([]::obj list)))"
    using xsi "3.prems"(2) mid(2) by (rule "3.IH")
  show ?case
    unfolding mid(1) py_range_step [of pre m mid' x]
    using step IH by (simp add: mid)
next
  case (4 x xs y ys)
  have xi: "is_int x" and xsi: "list_all is_int xs" using "4.prems"(1) by simp_all
  have yi: "is_int y" and ysi: "list_all is_int ys" using "4.prems"(2) by simp_all
  have gl: "getitem (L0 @ (x # xs) @ [PyInf]) (int (length L0)) = Inr x"
    using getitem_append [of L0 x "xs @ [PyInf]"] by simp
  have gr: "getitem (R0 @ (y # ys) @ [PyInf]) (int (length R0)) = Inr y"
    using getitem_append [of R0 y "ys @ [PyInf]"] by simp
  show ?case
  proof (cases "obj_le x y")
    case True
    from "4.prems"(3) obtain m mid' where
      mid: "mid = m # mid'" "length mid' = length xs + length (y # ys)"
      by (cases mid) auto
    have step: "merge_step (L0 @ (x # xs) @ [PyInf]) (R0 @ (y # ys) @ [PyInf])
        (pre @ mid @ post, int (length L0), int (length R0)) (int (length pre))
      = Inr ((pre @ [x]) @ mid' @ post, int (length (L0 @ [x])), int (length R0))"
      using merge_step_left [OF gr True, of L0 "xs @ [PyInf]" pre m "mid' @ post"]
      by (simp add: mid)
    have IH: "for_loop (merge_step ((L0 @ [x]) @ xs @ [PyInf]) (R0 @ (y # ys) @ [PyInf]))
         ((pre @ [x]) @ mid' @ post, int (length (L0 @ [x])), int (length R0))
         (py_range (int (length (pre @ [x]))) (int (length (pre @ [x])) + int (length mid')))
       = Inr ((pre @ [x]) @ merge_lists xs (y # ys) @ post,
              int (length (L0 @ [x])) + int (length xs), int (length R0) + int (length (y # ys)))"
      using True xsi "4.prems"(2) mid(2) by (rule "4.IH"(1))
    show ?thesis
      unfolding mid(1) py_range_step [of pre m mid' x]
      using step IH True by (simp add: mid)
  next
    case False
    from "4.prems"(3) obtain m mid' where
      mid: "mid = m # mid'" "length mid' = length (x # xs) + length ys"
      by (cases mid) auto
    have step: "merge_step (L0 @ (x # xs) @ [PyInf]) (R0 @ (y # ys) @ [PyInf])
        (pre @ mid @ post, int (length L0), int (length R0)) (int (length pre))
      = Inr ((pre @ [y]) @ mid' @ post, int (length L0), int (length (R0 @ [y])))"
      using merge_step_right [OF gl False, of R0 "ys @ [PyInf]" pre m "mid' @ post"]
      by (simp add: mid)
    have IH: "for_loop (merge_step (L0 @ (x # xs) @ [PyInf]) ((R0 @ [y]) @ ys @ [PyInf]))
         ((pre @ [y]) @ mid' @ post, int (length L0), int (length (R0 @ [y])))
         (py_range (int (length (pre @ [y]))) (int (length (pre @ [y])) + int (length mid')))
       = Inr ((pre @ [y]) @ merge_lists (x # xs) ys @ post,
              int (length L0) + int (length (x # xs)), int (length (R0 @ [y])) + int (length ys))"
      using False "4.prems"(1) ysi mid(2) by (rule "4.IH"(2))
    show ?thesis
      unfolding mid(1) py_range_step [of pre m mid' y]
      using step IH False by (simp add: mid)
  qed
qed

section \<open>Correctness of merge\<close>

lemma copy_right_left: "copy_right A q = copy_left A (q + 1)"
proof (intro ext)
  fix R j
  have "q + j + 1 = q + 1 + j" by simp
  then show "copy_right A q R j = copy_left A (q + 1) R j"
    by (simp only: copy_right_def copy_left_def)
qed

lemma copy_loop_spec:
  "m \<le> n \<Longrightarrow> p + n \<le> length A \<Longrightarrow>
   for_loop (copy_left A (int p)) (replicate (Suc n) z) (py_range 0 (int m))
     = Inr (take m (drop p A) @ replicate (Suc n - m) z)"
proof (induction m)
  case 0
  then show ?case by (simp add: py_range_empty)
next
  case (Suc m)
  let ?L = "take m (drop p A) @ replicate (Suc n - m) z"
  have IH: "for_loop (copy_left A (int p)) (replicate (Suc n) z) (py_range 0 (int m)) = Inr ?L"
    using Suc by simp
  have rng: "py_range 0 (int (Suc m)) = py_range 0 (int m) @ [int m]"
    using py_range_snoc [of 0 "int (Suc m)"] by simp
  have lt: "p + m < length A" using Suc.prems by simp
  have get: "getitem A (int p + int m) = Inr (A ! (p + m))"
    using getitem_nat [OF lt] by simp
  have len: "length (take m (drop p A)) = m" using Suc.prems by simp
  have rep: "replicate (Suc n - m) z = z # replicate (Suc n - Suc m) z"
    using Suc.prems(1) by (simp add: Suc_diff_le flip: replicate_Suc)
  have set: "setitem ?L (int m) (A ! (p + m))
      = Inr (take m (drop p A) @ (A ! (p + m)) # replicate (Suc n - Suc m) z)"
    using setitem_append [of "take m (drop p A)" z "replicate (Suc n - Suc m) z" "A ! (p + m)"]
    unfolding len rep .
  have tk: "take (Suc m) (drop p A) = take m (drop p A) @ [A ! (p + m)]"
    using lt by (simp add: take_Suc_conv_app_nth)
  have "copy_left A (int p) ?L (int m) = Inr (take (Suc m) (drop p A) @ replicate (Suc n - Suc m) z)"
    using get set tk by (simp add: copy_left_def)
  then show ?case
    unfolding rng for_loop_append IH by simp
qed

lemma merge_setup_spec:
  assumes "p + n1 + n2 \<le> length A"
  shows "merge_setup A (int p) (int p + int n1 - 1) (int p + int n1 + int n2 - 1)
           = Inr (take n1 (drop p A) @ [PyInf], take n2 (drop (p + n1) A) @ [PyInf])"
proof -
  have a1: "int p + int n1 - 1 - int p + 1 = int n1" by simp
  have a2: "int p + int n1 + int n2 - 1 - (int p + int n1 - 1) = int n2" by simp
  have a3: "int p + int n1 - 1 + 1 = int (p + n1)" by simp
  have l: "for_loop (copy_left A (int p)) (replicate (Suc n1) (PyInt 0 0)) (py_range 0 (int n1))
             = Inr (take n1 (drop p A) @ [PyInt 0 0])"
    using copy_loop_spec [of n1 n1 p A "PyInt 0 0"] assms by simp
  have r: "for_loop (copy_left A (int (p + n1))) (replicate (Suc n2) (PyInt 0 0)) (py_range 0 (int n2))
             = Inr (take n2 (drop (p + n1) A) @ [PyInt 0 0])"
    using copy_loop_spec [of n2 n2 "p + n1" A "PyInt 0 0"] assms by simp
  have ll: "length (take n1 (drop p A)) = n1" using assms by simp
  have lr: "length (take n2 (drop (p + n1) A)) = n2" using assms by simp
  have sl: "setitem (take n1 (drop p A) @ [PyInt 0 0]) (int n1) PyInf = Inr (take n1 (drop p A) @ [PyInf])"
    using setitem_append [of "take n1 (drop p A)" "PyInt 0 0" "[]" PyInf] unfolding ll .
  have sr: "setitem (take n2 (drop (p + n1) A) @ [PyInt 0 0]) (int n2) PyInf
              = Inr (take n2 (drop (p + n1) A) @ [PyInf])"
    using setitem_append [of "take n2 (drop (p + n1) A)" "PyInt 0 0" "[]" PyInf] unfolding lr .
  have n1: "nat (int n1 + 1) = Suc n1" by simp
  have n2: "nat (int n2 + 1) = Suc n2" by simp
  show ?thesis
    unfolding merge_setup_def Let_def a1 a2 copy_right_left a3 n1 n2 l r
    by (simp add: sl sr)
qed

lemma merge_loop_nat:
  assumes "p + n1 + n2 \<le> length A"
    and "list_all is_int (take n1 (drop p A))" "list_all is_int (take n2 (drop (p + n1) A))"
  shows "for_loop (merge_step (take n1 (drop p A) @ [PyInf]) (take n2 (drop (p + n1) A) @ [PyInf]))
           (A, 0, 0) (py_range (int p) (int p + int n1 + int n2 - 1 + 1))
         = Inr (take p A @ merge_lists (take n1 (drop p A)) (take n2 (drop (p + n1) A))
                  @ drop (p + n1 + n2) A, int n1, int n2)"
proof -
  let ?Ls = "take n1 (drop p A)" and ?Rs = "take n2 (drop (p + n1) A)"
  let ?mid = "take (n1 + n2) (drop p A)"
  have A: "A = take p A @ ?mid @ drop (p + n1 + n2) A"
    by (metis add.assoc append_take_drop_id drop_drop add.commute)
  have lp: "length (take p A) = p" using assms(1) by simp
  have ll: "length ?Ls = n1" and lr: "length ?Rs = n2" using assms(1) by simp_all
  have lm: "length ?mid = length ?Ls + length ?Rs" using assms(1) by simp
  have rng: "py_range (int p) (int p + int n1 + int n2 - 1 + 1)
               = py_range (int (length (take p A))) (int (length (take p A)) + int (length ?mid))"
    using assms(1) by (simp add: lp add.assoc)
  have loop: "for_loop (merge_step ([] @ ?Ls @ [PyInf]) ([] @ ?Rs @ [PyInf]))
       (take p A @ ?mid @ drop (p + n1 + n2) A, int (length ([]::obj list)), int (length ([]::obj list)))
       (py_range (int (length (take p A))) (int (length (take p A)) + int (length ?mid)))
     = Inr (take p A @ merge_lists ?Ls ?Rs @ drop (p + n1 + n2) A,
            int (length ([]::obj list)) + int (length ?Ls), int (length ([]::obj list)) + int (length ?Rs))"
    using assms(2,3) lm by (rule merge_loop_spec)
  show ?thesis
    unfolding rng using loop A ll lr by simp
qed

lemma merge_spec_nat:
  assumes "p + n1 + n2 \<le> length A"
    and "list_all is_int (take n1 (drop p A))" "list_all is_int (take n2 (drop (p + n1) A))"
  shows "merge A (int p) (int p + int n1 - 1) (int p + int n1 + int n2 - 1)
           = Inr (take p A @ merge_lists (take n1 (drop p A)) (take n2 (drop (p + n1) A))
                    @ drop (p + n1 + n2) A)"
  unfolding merge_def merge_setup_spec [OF assms(1)]
  using merge_loop_nat [OF assms] by simp

lemma list_all_take_drop: "list_all P A \<Longrightarrow> list_all P (take n (drop k A))"
  by (auto simp: list_all_iff dest: in_set_takeD in_set_dropD)

lemma nat_indices:
  assumes "0 \<le> p" "p \<le> q" "q < r" "r < int (length A)"
  obtains p' n1 n2 where "p = int p'" "q = int p' + int n1 - 1" "r = int p' + int n1 + int n2 - 1"
    "p' + n1 + n2 \<le> length A" "0 < n1" "0 < n2"
    "p' = nat p" "n1 = nat (q - p + 1)" "n2 = nat (r - q)"
proof -
  have "p = int (nat p)" "q = int (nat p) + int (nat (q - p + 1)) - 1"
    "r = int (nat p) + int (nat (q - p + 1)) + int (nat (r - q)) - 1"
    "nat p + nat (q - p + 1) + nat (r - q) \<le> length A" "0 < nat (q - p + 1)" "0 < nat (r - q)"
    using assms by auto
  then show thesis using that by blast
qed

lemma subarray_nat:
  "subarray A (int p) (int p + int n - 1) = take n (drop p A)"
  by (simp add: subarray_def)

text \<open>
  C1. For a list \<open>A\<close> of integers and \<open>0 \<le> p \<le> q < r < len(A)\<close>, where \<open>A[p..q]\<close> and
  \<open>A[q+1..r]\<close> are each sorted: \<^verbatim>\<open>merge(A, p, q, r)\<close> returns the array, with the same objects,
  unchanged outside \<open>p..r\<close>, and with \<open>A[p..r]\<close> sorted. The merge is stable: for every value
  \<open>v\<close>, the objects of value \<open>v\<close> in the merged subarray are those of the left subarray, in
  their order, followed by those of the right subarray.
\<close>

theorem merge_sorted_stable:
  assumes ints: "list_all is_int A"
    and bounds: "0 \<le> p" "p \<le> q" "q < r" "r < int (length A)"
    and sl: "sorted (map ival (subarray A p q))"
    and sr: "sorted (map ival (subarray A (q + 1) r))"
  shows "\<exists>A'. merge A p q r = Inr A' \<and> mset A' = mset A \<and>
           take (nat p) A' = take (nat p) A \<and> drop (nat (r + 1)) A' = drop (nat (r + 1)) A \<and>
           sorted (map ival (subarray A' p r)) \<and>
           (\<forall>v. filter (\<lambda>x. ival x = v) (subarray A' p r)
                  = filter (\<lambda>x. ival x = v) (subarray A p q)
                    @ filter (\<lambda>x. ival x = v) (subarray A (q + 1) r))"
proof -
  from bounds obtain p' n1 n2 where
    idx: "p = int p'" "q = int p' + int n1 - 1" "r = int p' + int n1 + int n2 - 1"
      "p' + n1 + n2 \<le> length A" "0 < n1" "0 < n2"
    by (rule nat_indices)
  define Ls where "Ls = take n1 (drop p' A)"
  define Rs where "Rs = take n2 (drop (p' + n1) A)"
  define M where "M = merge_lists Ls Rs"
  define A' where "A' = take p' A @ M @ drop (p' + n1 + n2) A"
  have Li: "list_all is_int Ls" and Ri: "list_all is_int Rs"
    using ints by (simp_all add: Ls_def Rs_def list_all_take_drop)
  have run: "merge A p q r = Inr A'"
    unfolding idx A'_def M_def Ls_def Rs_def
    using Li Ri idx(4) by (intro merge_spec_nat) (simp_all add: Ls_def Rs_def)
  have subL: "subarray A p q = Ls"
    unfolding idx Ls_def by (rule subarray_nat)
  have "q + 1 = int (p' + n1)" "r = int (p' + n1) + int n2 - 1" using idx by simp_all
  then have subR: "subarray A (q + 1) r = Rs"
    unfolding Rs_def using subarray_nat [of A "p' + n1" n2] by simp
  have lenM: "length M = n1 + n2"
    using idx(4) by (simp add: M_def length_merge_lists Ls_def Rs_def)
  have lp: "length (take p' A) = p'" using idx(4) by simp
  have "r = int p' + int (n1 + n2) - 1" using idx by simp
  then have "subarray A' p r = take (n1 + n2) (drop p' A')"
    unfolding idx(1) using subarray_nat [of A' p' "n1 + n2"] by simp
  then have subM: "subarray A' p r = M"
    using lp lenM by (simp add: A'_def)
  have A: "A = take p' A @ (Ls @ Rs) @ drop (p' + n1 + n2) A"
    unfolding Ls_def Rs_def
    by (metis add.assoc append_take_drop_id drop_drop add.commute take_add)
  have "mset A' = mset (take p' A @ (Ls @ Rs) @ drop (p' + n1 + n2) A)"
    by (simp add: A'_def M_def mset_merge_lists)
  also have "\<dots> = mset A" by (rule arg_cong [OF A [symmetric]])
  finally have ms: "mset A' = mset A" .
  have tk: "take (nat p) A' = take (nat p) A"
    using lp by (simp add: idx(1) A'_def)
  have "nat (r + 1) = p' + n1 + n2" using idx by simp
  then have dr: "drop (nat (r + 1)) A' = drop (nat (r + 1)) A"
    using lp lenM by (simp add: A'_def)
  have sLs: "sorted_wrt obj_le Ls" using sl Li by (simp add: subL sorted_ints)
  have sRs: "sorted_wrt obj_le Rs" using sr Ri by (simp add: subR sorted_ints)
  have "list_all is_int M"
    using Li Ri by (simp add: M_def list_all_iff set_merge_lists) blast
  moreover have "sorted_wrt obj_le M"
    unfolding M_def using sLs sRs by (rule sorted_merge_lists)
  ultimately have sM: "sorted (map ival M)" by (simp add: sorted_ints)
  have st: "filter (\<lambda>x. ival x = v) M
              = filter (\<lambda>x. ival x = v) Ls @ filter (\<lambda>x. ival x = v) Rs" for v
    unfolding M_def using sLs sRs Li Ri by (rule merge_lists_stable)
  show ?thesis
    using run ms tk dr sM st by (simp add: subM subL subR)
qed

theorem merge_sorted_stable_witness:
  "list_all is_int [PyInt 1 0, PyInt 2 1, PyInt 3 2, PyInt 4 3, PyInt 2 4, PyInt 3 5, PyInt 4 6, PyInt 5 7] \<and>
   (0::int) \<le> 0 \<and> (0::int) \<le> 3 \<and> (3::int) < 7 \<and>
   7 < int (length [PyInt 1 0, PyInt 2 1, PyInt 3 2, PyInt 4 3, PyInt 2 4, PyInt 3 5, PyInt 4 6, PyInt 5 7]) \<and>
   sorted (map ival (subarray [PyInt 1 0, PyInt 2 1, PyInt 3 2, PyInt 4 3, PyInt 2 4, PyInt 3 5, PyInt 4 6, PyInt 5 7] 0 3)) \<and>
   sorted (map ival (subarray [PyInt 1 0, PyInt 2 1, PyInt 3 2, PyInt 4 3, PyInt 2 4, PyInt 3 5, PyInt 4 6, PyInt 5 7] (3 + 1) 7)) \<and>
   (\<exists>A'. merge [PyInt 1 0, PyInt 2 1, PyInt 3 2, PyInt 4 3, PyInt 2 4, PyInt 3 5, PyInt 4 6, PyInt 5 7] 0 3 7 = Inr A' \<and>
      sorted (map ival (subarray A' 0 7)) \<and>
      filter (\<lambda>x. ival x = 2) (subarray A' 0 7) = [PyInt 2 1, PyInt 2 4])"
proof -
  let ?A = "[PyInt 1 0, PyInt 2 1, PyInt 3 2, PyInt 4 3, PyInt 2 4, PyInt 3 5, PyInt 4 6, PyInt 5 7]"
  have h1: "list_all is_int ?A" by simp
  have h2: "(0::int) \<le> 0" and h3: "(0::int) \<le> 3" and h4: "(3::int) < 7" by simp_all
  have h5: "7 < int (length ?A)" by simp
  have h6: "sorted (map ival (subarray ?A 0 3))" by (simp add: subarray_def)
  have h7: "sorted (map ival (subarray ?A (3 + 1) 7))" by (simp add: subarray_def)
  from merge_sorted_stable [OF h1 h2 h3 h4 h5 h6 h7] obtain A' where
    A': "merge ?A 0 3 7 = Inr A'" "sorted (map ival (subarray A' 0 7))"
      "\<forall>v. filter (\<lambda>x. ival x = v) (subarray A' 0 7)
             = filter (\<lambda>x. ival x = v) (subarray ?A 0 3)
               @ filter (\<lambda>x. ival x = v) (subarray ?A (3 + 1) 7)"
    by blast
  have "filter (\<lambda>x. ival x = 2) (subarray A' 0 7) = [PyInt 2 1, PyInt 2 4]"
    using A'(3) by (simp add: subarray_def)
  then show ?thesis using h1 h5 h6 h7 A'(1,2) by simp
qed

section \<open>The indices of the merging loop stay in bounds\<close>

lemma merge_step_mono:
  "merge_step L R (A, i, j) k = Inr (A', i', j') \<Longrightarrow> i \<le> i' \<and> j \<le> j'"
  by (auto simp: merge_step_def split: sum.splits if_splits)

lemma merge_loop_mono:
  "for_loop (merge_step L R) (A, i, j) ks = Inr (A', i', j') \<Longrightarrow> i \<le> i' \<and> j \<le> j'"
proof (induction ks arbitrary: A i j)
  case Nil
  then show ?case by simp
next
  case (Cons k ks)
  show ?case
  proof (cases "merge_step L R (A, i, j) k")
    case (Inl e)
    then show ?thesis using Cons.prems by simp
  next
    case (Inr s)
    obtain A1 i1 j1 where s: "s = (A1, i1, j1)" by (cases s) auto
    have "for_loop (merge_step L R) (A1, i1, j1) ks = Inr (A', i', j')"
      using Cons.prems Inr s by simp
    then have "i1 \<le> i' \<and> j1 \<le> j'" by (rule Cons.IH)
    moreover have "i \<le> i1 \<and> j \<le> j1" using Inr s merge_step_mono by blast
    ultimately show ?thesis by simp
  qed
qed

text \<open>
  C8 (as amended). In \<^verbatim>\<open>merge(A, p, q, r)\<close> on a list of integers with \<open>0 \<le> p \<le> q < r < len(A)\<close>, the lists
  \<open>L\<close> and \<open>R\<close> have \<open>n1 + 1\<close> and \<open>n2 + 1\<close> elements and end with the sentinel, and after any
  number \<open>m \<le> r - p + 1\<close> of iterations of the merging loop no exception was raised and
  \<open>0 \<le> i \<le> n1\<close> and \<open>0 \<le> j \<le> n2\<close>: every access \<^verbatim>\<open>L[i]\<close>, \<^verbatim>\<open>R[j]\<close> is within bounds.
\<close>

theorem merge_loop_in_bounds:
  assumes ints: "list_all is_int A"
    and bounds: "0 \<le> p" "p \<le> q" "q < r" "r < int (length A)"
    and m: "m \<le> nat (r - p + 1)"
  shows "\<exists>L R A' i j. merge_setup A p q r = Inr (L, R) \<and>
           int (length L) = (q - p + 1) + 1 \<and> int (length R) = (r - q) + 1 \<and>
           getitem L (q - p + 1) = Inr PyInf \<and> getitem R (r - q) = Inr PyInf \<and>
           for_loop (merge_step L R) (A, 0, 0) (take m (py_range p (r + 1))) = Inr (A', i, j) \<and>
           0 \<le> i \<and> i \<le> q - p + 1 \<and> 0 \<le> j \<and> j \<le> r - q"
proof -
  from bounds obtain p' n1 n2 where
    idx: "p = int p'" "q = int p' + int n1 - 1" "r = int p' + int n1 + int n2 - 1"
      "p' + n1 + n2 \<le> length A" "0 < n1" "0 < n2"
    by (rule nat_indices)
  define Ls where "Ls = take n1 (drop p' A)"
  define Rs where "Rs = take n2 (drop (p' + n1) A)"
  have Li: "list_all is_int Ls" and Ri: "list_all is_int Rs"
    using ints by (simp_all add: Ls_def Rs_def list_all_take_drop)
  have ll: "length Ls = n1" and lr: "length Rs = n2" using idx(4) by (simp_all add: Ls_def Rs_def)
  have stp: "merge_setup A p q r = Inr (Ls @ [PyInf], Rs @ [PyInf])"
    unfolding idx Ls_def Rs_def using idx(4) by (rule merge_setup_spec)
  have n1: "q - p + 1 = int n1" and n2: "r - q = int n2" using idx by simp_all
  have gl: "getitem (Ls @ [PyInf]) (q - p + 1) = Inr PyInf"
    using getitem_append [of Ls PyInf "[]"] by (simp add: n1 ll)
  have gr: "getitem (Rs @ [PyInf]) (r - q) = Inr PyInf"
    using getitem_append [of Rs PyInf "[]"] by (simp add: n2 lr)
  obtain Afin where full: "for_loop (merge_step (Ls @ [PyInf]) (Rs @ [PyInf])) (A, 0, 0)
      (py_range p (r + 1)) = Inr (Afin, int n1, int n2)"
    using merge_loop_nat [OF idx(4)] Li Ri unfolding Ls_def Rs_def idx by blast
  let ?ks = "py_range p (r + 1)"
  have ks_split: "?ks = take m ?ks @ drop m ?ks" by simp
  have app: "(case for_loop (merge_step (Ls @ [PyInf]) (Rs @ [PyInf])) (A, 0, 0) (take m ?ks) of
            Inl e \<Rightarrow> Inl e
          | Inr s' \<Rightarrow> for_loop (merge_step (Ls @ [PyInf]) (Rs @ [PyInf])) s' (drop m ?ks))
        = Inr (Afin, int n1, int n2)"
    using full for_loop_append [of "merge_step (Ls @ [PyInf]) (Rs @ [PyInf])" "(A, 0, 0)" "take m ?ks" "drop m ?ks"]
    by simp
  then obtain s where pre: "for_loop (merge_step (Ls @ [PyInf]) (Rs @ [PyInf])) (A, 0, 0) (take m ?ks) = Inr s"
    and post: "for_loop (merge_step (Ls @ [PyInf]) (Rs @ [PyInf])) s (drop m ?ks) = Inr (Afin, int n1, int n2)"
    by (cases "for_loop (merge_step (Ls @ [PyInf]) (Rs @ [PyInf])) (A, 0, 0) (take m ?ks)") auto
  obtain A' i j where s: "s = (A', i, j)" by (cases s) auto
  have lo: "0 \<le> i \<and> 0 \<le> j" using pre s merge_loop_mono by blast
  have hi: "i \<le> int n1 \<and> j \<le> int n2" using post s merge_loop_mono by blast
  show ?thesis
    using stp gl gr pre s lo hi by (simp add: n1 n2 ll lr)
qed

theorem merge_loop_in_bounds_witness:
  "list_all is_int [PyInt 1 0, PyInt 2 1, PyInt 3 2, PyInt 4 3, PyInt 2 4, PyInt 3 5, PyInt 4 6, PyInt 5 7] \<and>
   (0::int) \<le> 0 \<and> (0::int) \<le> 3 \<and> (3::int) < 7 \<and>
   7 < int (length [PyInt 1 0, PyInt 2 1, PyInt 3 2, PyInt 4 3, PyInt 2 4, PyInt 3 5, PyInt 4 6, PyInt 5 7]) \<and>
   (5::nat) \<le> nat (7 - 0 + 1) \<and>
   (\<exists>L R A' i j.
      merge_setup [PyInt 1 0, PyInt 2 1, PyInt 3 2, PyInt 4 3, PyInt 2 4, PyInt 3 5, PyInt 4 6, PyInt 5 7] 0 3 7
        = Inr (L, R) \<and>
      int (length L) = (3 - 0 + 1) + 1 \<and> int (length R) = (7 - 3) + 1 \<and>
      getitem L (3 - 0 + 1) = Inr PyInf \<and> getitem R (7 - 3) = Inr PyInf \<and>
      for_loop (merge_step L R)
        ([PyInt 1 0, PyInt 2 1, PyInt 3 2, PyInt 4 3, PyInt 2 4, PyInt 3 5, PyInt 4 6, PyInt 5 7], 0, 0)
        (take 5 (py_range 0 (7 + 1))) = Inr (A', i, j) \<and>
      0 \<le> i \<and> i \<le> 3 - 0 + 1 \<and> 0 \<le> j \<and> j \<le> 7 - 3)"
proof -
  let ?A = "[PyInt 1 0, PyInt 2 1, PyInt 3 2, PyInt 4 3, PyInt 2 4, PyInt 3 5, PyInt 4 6, PyInt 5 7]"
  have h1: "list_all is_int ?A" by simp
  have h2: "(0::int) \<le> 0" and h3: "(0::int) \<le> 3" and h4: "(3::int) < 7" by simp_all
  have h5: "7 < int (length ?A)" by simp
  have h6: "(5::nat) \<le> nat (7 - 0 + 1)" by simp
  show ?thesis
    by (intro conjI h1 h2 h3 h4 h5 h6 merge_loop_in_bounds [OF h1 h2 h3 h4 h5 h6])
qed

text \<open>
  The claim C8 as stated, for every array whose indices \<open>p..r\<close> are valid, fails on an array
  that holds \<^verbatim>\<open>float('inf')\<close>: the sentinel of \<open>L\<close> then compares \<^verbatim>\<open><=\<close> to an element of \<open>R\<close>
  and is taken. On \<^verbatim>\<open>[1, inf, inf]\<close> with \<open>p = q = 0\<close> and \<open>r = 2\<close>, where \<open>n1 = 1\<close>, two
  iterations leave \<open>i = 2\<close>, and the third reads \<^verbatim>\<open>L[2]\<close> and raises \<^verbatim>\<open>IndexError\<close>.
\<close>

theorem merge_sentinel_overrun:
  "(0::int) \<le> 0 \<and> (0::int) < 2 \<and> 2 < int (length [PyInt 1 0, PyInf, PyInf]) \<and>
   merge_setup [PyInt 1 0, PyInf, PyInf] 0 0 2
     = Inr ([PyInt 1 0, PyInf], [PyInf, PyInf, PyInf]) \<and>
   for_loop (merge_step [PyInt 1 0, PyInf] [PyInf, PyInf, PyInf])
       ([PyInt 1 0, PyInf, PyInf], 0, 0) (take 2 (py_range 0 (2 + 1)))
     = Inr ([PyInt 1 0, PyInf, PyInf], 2, 0) \<and>
   (2::int) > 0 - 0 + 1 \<and>
   getitem [PyInt 1 0, PyInf] 2 = Inl IndexError \<and>
   merge [PyInt 1 0, PyInf, PyInf] 0 0 2 = Inl IndexError"
  by code_simp

section \<open>Merge sort on a sorted array\<close>

lemma subarray_sorted_split:
  assumes "sorted_wrt obj_le (take (n1 + n2) (drop p A))"
  shows "sorted_wrt obj_le (take n1 (drop p A) @ take n2 (drop (p + n1) A))"
proof -
  have "take (n1 + n2) (drop p A) = take n1 (drop p A) @ take n2 (drop (p + n1) A)"
    by (simp add: take_add add.commute)
  then show ?thesis using assms by simp
qed

lemma merge_sorted_unchanged:
  assumes "p + n1 + n2 \<le> length A" "list_all is_int A"
    and "sorted_wrt obj_le (take (n1 + n2) (drop p A))"
  shows "merge A (int p) (int p + int n1 - 1) (int p + int n1 + int n2 - 1) = Inr A"
proof -
  let ?Ls = "take n1 (drop p A)" and ?Rs = "take n2 (drop (p + n1) A)"
  have "sorted_wrt obj_le (?Ls @ ?Rs)" using assms(3) by (rule subarray_sorted_split)
  then have m: "merge_lists ?Ls ?Rs = ?Ls @ ?Rs" by (rule merge_lists_sorted_append)
  have A: "take p A @ (?Ls @ ?Rs) @ drop (p + n1 + n2) A = A"
    by (metis add.assoc append_take_drop_id drop_drop add.commute take_add)
  have "merge A (int p) (int p + int n1 - 1) (int p + int n1 + int n2 - 1)
          = Inr (take p A @ merge_lists ?Ls ?Rs @ drop (p + n1 + n2) A)"
    using assms(1,2) by (intro merge_spec_nat) (simp_all add: list_all_take_drop)
  then show ?thesis unfolding m using A by simp
qed

lemma sorted_wrt_take_drop: "sorted_wrt P xs \<Longrightarrow> sorted_wrt P (take n (drop k xs))"
  by (simp add: sorted_wrt_drop sorted_wrt_take)

lemma merge_sort_sorted_unchanged:
  "list_all is_int A \<Longrightarrow> 0 \<le> p \<Longrightarrow> r < int (length A) \<Longrightarrow>
   sorted_wrt obj_le (subarray A p r) \<Longrightarrow>
   merge_sort A p r = Inr (A, if p < r then Some A else None)"
proof (induction A p r rule: merge_sort.induct)
  case (1 A p r)
  show ?case
  proof (cases "p < r")
    case False
    then show ?thesis by (subst merge_sort.simps) simp
  next
    case True
    define q where "q = (p + r) div 2"
    have pq: "p \<le> q" and qr: "q < r" using True by (simp_all add: q_def)
    from "1.prems"(2) pq qr "1.prems"(3) obtain p' n1 n2 where
      idx: "p = int p'" "q = int p' + int n1 - 1" "r = int p' + int n1 + int n2 - 1"
        "p' + n1 + n2 \<le> length A" "0 < n1" "0 < n2"
      by (rule nat_indices)
    have "r = int p' + int (n1 + n2) - 1" using idx by simp
    then have whole: "subarray A p r = take (n1 + n2) (drop p' A)"
      unfolding idx(1) using subarray_nat [of A p' "n1 + n2"] by simp
    then have sw: "sorted_wrt obj_le (take (n1 + n2) (drop p' A))" using "1.prems"(4) by simp
    then have both: "sorted_wrt obj_le (take n1 (drop p' A) @ take n2 (drop (p' + n1) A))"
      by (rule subarray_sorted_split)
    have subL: "subarray A p q = take n1 (drop p' A)"
      unfolding idx by (rule subarray_nat)
    have "q + 1 = int (p' + n1)" "r = int (p' + n1) + int n2 - 1" using idx by simp_all
    then have subR: "subarray A (q + 1) r = take n2 (drop (p' + n1) A)"
      using subarray_nat [of A "p' + n1" n2] by simp
    have sL: "sorted_wrt obj_le (subarray A p q)" using both by (simp add: subL sorted_wrt_append)
    have sR: "sorted_wrt obj_le (subarray A (q + 1) r)" using both by (simp add: subR sorted_wrt_append)
    have qlen: "q < int (length A)" using qr "1.prems"(3) by simp
    have q0: "0 \<le> q + 1" using pq "1.prems"(2) by simp
    have left: "merge_sort A p q = Inr (A, if p < q then Some A else None)"
      using True q_def "1.prems"(1,2) qlen sL by (rule "1.IH"(1))
    have right: "merge_sort A (q + 1) r = Inr (A, if q + 1 < r then Some A else None)"
      using True q_def left refl "1.prems"(1) q0 "1.prems"(3) sR by (rule "1.IH"(2))
    have mrg: "merge A p q r = Inr A"
      unfolding idx using idx(4) "1.prems"(1) sw by (rule merge_sorted_unchanged)
    show ?thesis
      using True left right mrg by (subst merge_sort.simps) (simp add: q_def [symmetric])
  qed
qed

lemma merge_sort_sorted_whole:
  assumes "list_all is_int A" "sorted (map ival A)"
  shows "merge_sort A 0 (int (length A) - 1) = Inr (A, if 2 \<le> length A then Some A else None)"
proof -
  have "subarray A 0 (int (length A) - 1) = A" by (simp add: subarray_def)
  moreover have "sorted_wrt obj_le A" using assms by (simp add: sorted_ints)
  ultimately have "sorted_wrt obj_le (subarray A 0 (int (length A) - 1))" by simp
  from merge_sort_sorted_unchanged [OF assms(1) _ _ this]
  have "merge_sort A 0 (int (length A) - 1)
          = Inr (A, if 0 < int (length A) - 1 then Some A else None)"
    by simp
  moreover have "0 < int (length A) - 1 \<longleftrightarrow> 2 \<le> length A" by auto
  ultimately show ?thesis by simp
qed

text \<open>
  C3. A list with one element is sorted, and \<^verbatim>\<open>merge_sort(A, 0, len(A)-1)\<close> leaves it as it
  is, but the value of the call is \<^verbatim>\<open>None\<close>, not the list: the \<^verbatim>\<open>return A\<close> of the source
  stands inside \<^verbatim>\<open>if p < r\<close>. By \<open>merge_sort_sorted_whole\<close> a sorted list of two or more
  integers is returned unchanged.
\<close>

theorem merge_sort_singleton_returns_None:
  "sorted (map ival [PyInt 5 0]) \<and>
   merge_sort [PyInt 5 0] 0 (int (length [PyInt 5 0]) - 1) = Inr ([PyInt 5 0], None)"
  by (subst merge_sort.simps) simp

section \<open>The attributes that save_hyperparameters sets\<close>







section \<open>The abstract methods and the constructor of Module\<close>

text \<open>
  C5. Every call of \<^verbatim>\<open>Module.loss\<close>, \<^verbatim>\<open>Module.configure_optimizers\<close>,
  \<^verbatim>\<open>DataModule.get_dataloader\<close> and \<^verbatim>\<open>Trainer.fit_epoch\<close> raises \<^verbatim>\<open>NotImplementedError\<close>,
  whatever the instance and the arguments.
\<close>

theorem abstract_methods_raise:
  "Module_loss self y_hat y = Inl NotImplementedError \<and>
   Module_configure_optimizers self = Inl NotImplementedError \<and>
   DataModule_get_dataloader self train = Inl NotImplementedError \<and>
   Trainer_fit_epoch self = Inl NotImplementedError"
  by (simp add: Module_loss_def Module_configure_optimizers_def DataModule_get_dataloader_def
      Trainer_fit_epoch_def)

text \<open>
  C10. Every call of the constructor of \<^verbatim>\<open>Module\<close> raises an exception, the \<^verbatim>\<open>TypeError\<close> of
  \<^verbatim>\<open>super.__init__()\<close>, before any attribute is set: for no arguments does it return an
  instance.
\<close>

theorem Module_init_raises:
  "Module_init plot_train_per_epoch plot_valid_per_epoch = Inl TypeError \<and>
   (\<nexists>self. Module_init plot_train_per_epoch plot_valid_per_epoch = Inr self)"
  by (simp add: Module_init_def super_slot_init_def)

end
